theory Spec2Isabelle
  imports Complex_Main "HOL-Library.Word"
begin

section \<open>JavaScript values used by the worker\<close>

text \<open>
  The worker \<^verbatim>\<open>src/util/generate-password.worker.js\<close> works on bytes of a
  \<^verbatim>\<open>Uint8Array\<close>, on strings (sequences of UTF-16 code units) and on numbers.
  A number is an IEEE double; the model keeps the exact value and names the two special
  values the code can produce. Where an arithmetic result may be rounded, the rounding is
  the parameter \<open>rnd\<close> of the functions below, and every theorem holds for each rounding.
\<close>

type_synonym byte = "8 word"
type_synonym jschar = "16 word"
type_synonym jsstring = "jschar list"

definition str :: "string \<Rightarrow> jsstring" where
  "str s = map of_char s"

datatype 'a jsnum = Fin 'a | PosInf | NaN

text \<open>\<^verbatim>\<open>a / b\<close> on two counts: \<^verbatim>\<open>0 / 0\<close> is NaN, \<^verbatim>\<open>a / 0\<close> is Infinity.\<close>

definition js_div :: "(real \<Rightarrow> real) \<Rightarrow> nat \<Rightarrow> nat \<Rightarrow> real jsnum" where
  "js_div rnd a b =
     (if b = 0 then (if a = 0 then NaN else PosInf) else Fin (rnd (real a / real b)))"

text \<open>\<^verbatim>\<open>x >= y\<close> with a finite right-hand side: every comparison with NaN is false.\<close>

fun js_ge :: "real jsnum \<Rightarrow> real \<Rightarrow> bool" where
  "js_ge (Fin x) y = (y \<le> x)"
| "js_ge PosInf y = True"
| "js_ge NaN y = False"

section \<open>The random pool and the worker's environment\<close>

datatype responseCode = OK | TIMEOUT | ERROR

text \<open>
  A \<^verbatim>\<open>RESPONSE_GET_RANDOM_BYTES\<close> message of the main thread: its response code, the
  bytes of \<^verbatim>\<open>messageData.buffer\<close> (none when the field is absent) and
  \<^verbatim>\<open>messageData.message\<close>.
\<close>

record response =
  responseCode :: responseCode
  messageBuffer :: "byte list"
  messageText :: string

datatype payload = Password jsstring | Message string | NoData

datatype message =
    REQUEST_GET_RANDOM_BYTES "byte list"
  | RESPONSE_GENERATE_PASSWORD responseCode payload

type_synonym promise = nat

datatype outcome = Resolved | Rejected string

text \<open>
  The state of the worker. The first three fields are \<^verbatim>\<open>randomPool\<close>. The others are
  the effects of the code made explicit: the promises created so far and how they were
  settled, the registered \<^verbatim>\<open>onMessageListener\<close> closures (each named by the promise it
  settles), the messages posted to the main thread, the responses the main thread will
  still deliver, in order (a request is never answered once none is left), and the
  clock: \<open>clock k\<close> is what the \<open>k\<close>-th call of \<^verbatim>\<open>Date.now()\<close> returns.
\<close>

record world =
  buffer :: "byte list"
  numRead :: nat
  regenerationPromise :: "promise option"
  created :: nat
  settled :: "promise \<Rightarrow> outcome option"
  listeners :: "promise list"
  outbox :: "message list"
  entropy :: "response list"
  clock :: "nat \<Rightarrow> int"
  ticks :: nat

definition initialWorld :: "response list \<Rightarrow> (nat \<Rightarrow> int) \<Rightarrow> world" where
  "initialWorld rs clk =
     \<lparr> buffer = replicate 65536 0, numRead = 65536, regenerationPromise = None,
       created = 0, settled = (\<lambda>p. None), listeners = [], outbox = [],
       entropy = rs, clock = clk, ticks = 0 \<rparr>"

text \<open>
  \<^verbatim>\<open>regenerateRandomPool\<close> (lines 28-66). When no regeneration is in progress the executor
  of the new promise registers its listener and posts the request; the second argument
  of \<^verbatim>\<open>postMessage\<close> is the transfer list, so the pool's \<^verbatim>\<open>ArrayBuffer\<close> moves to the
  main thread and the worker's view of it is left detached, of length 0.
\<close>

definition regenerateRandomPool :: "world \<Rightarrow> promise \<times> world" where
  "regenerateRandomPool w =
     (case regenerationPromise w of
        None \<Rightarrow>
          (created w,
           w\<lparr> regenerationPromise := Some (created w),
              created := created w + 1,
              listeners := listeners w @ [created w],
              outbox := outbox w @ [REQUEST_GET_RANDOM_BYTES (buffer w)],
              buffer := [] \<rparr>)
      | Some p \<Rightarrow> (p, w))"

text \<open>The listener of promise \<open>p\<close> on a \<^verbatim>\<open>RESPONSE_GET_RANDOM_BYTES\<close> event (lines 35-47).\<close>

definition onMessageListener :: "response \<Rightarrow> promise \<Rightarrow> world \<Rightarrow> world" where
  "onMessageListener r p w =
     w\<lparr> listeners := removeAll p (listeners w),
        buffer := messageBuffer r,
        numRead := 0,
        regenerationPromise := None,
        settled := (settled w)(p := Some (if responseCode r = OK then Resolved
                                          else Rejected (messageText r))) \<rparr>"

text \<open>The event loop delivers the next response to every listener registered at that time.\<close>

definition deliver :: "world \<Rightarrow> world option" where
  "deliver w =
     (case entropy w of
        [] \<Rightarrow> None
      | r # rs \<Rightarrow> Some (fold (onMessageListener r) (listeners w) (w\<lparr> entropy := rs \<rparr>)))"

text \<open>
  \<^verbatim>\<open>getRandomByte\<close> (lines 75-90) is an async function with one suspension point. An
  invocation is either suspended at the \<^verbatim>\<open>await\<close>, or has returned a byte, or has
  thrown. \<open>getRandomByte_enter\<close> runs it from its first line to the \<^verbatim>\<open>await\<close> or to the
  \<^verbatim>\<open>return\<close>; \<open>getRandomByte_resume\<close> runs it from the settled \<^verbatim>\<open>await\<close> on, where a
  rejected promise throws. The call in the last line enters the function again; when
  the pool was not exhausted at the first test, the second test holds and the call is
  not reached.
\<close>

datatype invocation = Awaiting promise | Returned byte | Threw string

definition readByte :: "world \<Rightarrow> invocation \<times> world" where
  "readByte w = (Returned (buffer w ! numRead w), w\<lparr> numRead := numRead w + 1 \<rparr>)"

function getRandomByte_enter :: "world \<Rightarrow> invocation \<times> world" where
  "getRandomByte_enter w =
     (if numRead w \<ge> length (buffer w)
      then (case regenerateRandomPool w of (p, w') \<Rightarrow> (Awaiting p, w'))
      else if numRead w < length (buffer w) then readByte w
      else getRandomByte_enter w)"
  by pat_completeness auto
termination
  by (relation "{}") auto

declare getRandomByte_enter.simps [simp del]

definition getRandomByte_resume :: "outcome \<Rightarrow> world \<Rightarrow> invocation \<times> world" where
  "getRandomByte_resume out w =
     (case out of
        Rejected m \<Rightarrow> (Threw m, w)
      | Resolved \<Rightarrow>
          (if numRead w < length (buffer w) then readByte w else getRandomByte_enter w))"

text \<open>
  One task running alone: while it is suspended on \<open>p\<close> the only thing that happens is
  the delivery of the main thread's responses. \<open>None\<close> is the call that never returns.
\<close>

partial_function (option) await :: "promise \<Rightarrow> world \<Rightarrow> (outcome \<times> world) option" where
  "await p w =
     (case settled w p of
        Some out \<Rightarrow> Some (out, w)
      | None \<Rightarrow> Option.bind (deliver w) (await p))"

partial_function (option) complete ::
  "invocation \<times> world \<Rightarrow> ((string + byte) \<times> world) option" where
  "complete iw =
     (case fst iw of
        Returned b \<Rightarrow> Some (Inr b, snd iw)
      | Threw m \<Rightarrow> Some (Inl m, snd iw)
      | Awaiting p \<Rightarrow>
          Option.bind (await p (snd iw)) (\<lambda>ow. complete (getRandomByte_resume (fst ow) (snd ow))))"

definition getRandomByte :: "world \<Rightarrow> ((string + byte) \<times> world) option" where
  "getRandomByte w = complete (getRandomByte_enter w)"

section \<open>The uniform sampler\<close>

text \<open>
  \<^verbatim>\<open>getRandomByteInRange\<close> (lines 103-110). \<^verbatim>\<open>Math.floor((0xff + 1) / bound) * bound - 1\<close>
  is NaN when \<open>bound\<close> is 0 (Infinity times 0); for any other integer the floor of the
  quotient is the integer quotient rounded down. \<^verbatim>\<open>x > NaN\<close> is false, \<^verbatim>\<open>x % 0\<close> is NaN,
  and \<^verbatim>\<open>%\<close> takes the sign of its left operand, here a byte.
\<close>

definition rejectionLimit :: "int \<Rightarrow> int jsnum" where
  "rejectionLimit bound = (if bound = 0 then NaN else Fin (256 div bound * bound - 1))"

fun exceeds :: "int \<Rightarrow> int jsnum \<Rightarrow> bool" where
  "exceeds x (Fin l) = (l < x)"
| "exceeds x PosInf = False"
| "exceeds x NaN = False"

definition inRange :: "int \<Rightarrow> int \<Rightarrow> int \<Rightarrow> int jsnum" where
  "inRange mn bound x = (if bound = 0 then NaN else Fin (x mod \<bar>bound\<bar> + mn))"

partial_function (option) getRandomByteInRange ::
  "int \<Rightarrow> int \<Rightarrow> world \<Rightarrow> ((string + int jsnum) \<times> world) option" where
  "getRandomByteInRange mn mx w =
     Option.bind (getRandomByte w) (\<lambda>rw.
       case fst rw of
         Inl e \<Rightarrow> Some (Inl e, snd rw)
       | Inr randomUint8 \<Rightarrow>
           (if exceeds (uint randomUint8) (rejectionLimit (mx - mn + 1))
            then getRandomByteInRange mn mx (snd rw)
            else Some (Inr (inRange mn (mx - mn + 1) (uint randomUint8)), snd rw)))"

section \<open>The validator\<close>

text \<open>
  Modelled from the spec: \<^verbatim>\<open>util/classifyCharacter\<close> is imported by the worker and is not
  among the sources. The spec gives its results: exactly one of uppercase, lowercase,
  digit, symbol, other. The classifier itself is a parameter of the model.
\<close>

datatype classification = Uppercase | Lowercase | Digit | Symbol | Other

record options =
  passwordLength :: nat
  minDigitProportion :: real
  minSymbolProportion :: real
  maxCaseVariance :: real
  useLowercase :: bool
  useUppercase :: bool
  useDigits :: bool
  useSymbols :: bool
  symbols :: jsstring

text \<open>The counting loop of \<^verbatim>\<open>passwordIsValid\<close> (lines 124-135) on its \<^verbatim>\<open>Map\<close>.\<close>

fun characterCount ::
  "(jschar \<Rightarrow> classification) \<Rightarrow> jsstring \<Rightarrow> (classification \<rightharpoonup> nat) \<Rightarrow> (classification \<rightharpoonup> nat)" where
  "characterCount classifyCharacter [] m = m"
| "characterCount classifyCharacter (c # cs) m =
     characterCount classifyCharacter cs
       (case m (classifyCharacter c) of
          None \<Rightarrow> m(classifyCharacter c \<mapsto> 1)
        | Some n \<Rightarrow> m(classifyCharacter c \<mapsto> n + 1))"

text \<open>\<^verbatim>\<open>characterCount.get(k) || 0\<close>\<close>

definition getOrZero :: "(classification \<rightharpoonup> nat) \<Rightarrow> classification \<Rightarrow> nat" where
  "getOrZero m k = (case m k of None \<Rightarrow> 0 | Some n \<Rightarrow> n)"

text \<open>
  \<^verbatim>\<open>2 * Math.abs(lowercase / letters - 0.5)\<close>, which the code evaluates only when
  \<open>letters\<close> is positive. The quotient and the difference may be rounded.
\<close>

definition caseVariance :: "(real \<Rightarrow> real) \<Rightarrow> nat \<Rightarrow> nat \<Rightarrow> real" where
  "caseVariance rnd lowercase letters =
     2 * \<bar>rnd (rnd (real lowercase / real letters) - 1 / 2)\<bar>"

definition passwordIsValid ::
  "(real \<Rightarrow> real) \<Rightarrow> (jschar \<Rightarrow> classification) \<Rightarrow> jsstring \<Rightarrow> options \<Rightarrow> bool" where
  "passwordIsValid rnd classifyCharacter password opts =
     (let counts = characterCount classifyCharacter password Map.empty;
          digits = getOrZero counts Digit;
          symbolCount = getOrZero counts Symbol;
          lowercase = getOrZero counts Lowercase;
          uppercase = getOrZero counts Uppercase;
          letters = lowercase + uppercase
      in (\<not> useDigits opts
            \<or> js_ge (js_div rnd digits (length password)) (minDigitProportion opts))
         \<and> (\<not> (useSymbols opts \<and> length (symbols opts) > 0)
            \<or> js_ge (js_div rnd symbolCount (length password)) (minSymbolProportion opts))
         \<and> (\<not> (letters > 0 \<and> useUppercase opts \<and> useLowercase opts)
            \<or> caseVariance rnd lowercase letters \<le> maxCaseVariance opts))"

section \<open>The generator\<close>

text \<open>
  \<^verbatim>\<open>randomString += characters[i]\<close>: an index that is not a position of \<open>characters\<close>
  reads \<^verbatim>\<open>undefined\<close>, which \<^verbatim>\<open>+=\<close> appends as the nine characters of its name.
\<close>

definition charAt :: "jsstring \<Rightarrow> int jsnum \<Rightarrow> jsstring" where
  "charAt characters i =
     (case i of
        Fin k \<Rightarrow> (if 0 \<le> k \<and> k < int (length characters) then [characters ! nat k]
                  else str ''undefined'')
      | PosInf \<Rightarrow> str ''undefined''
      | NaN \<Rightarrow> str ''undefined'')"

text \<open>
  The loop of \<^verbatim>\<open>generateRandomString\<close> (lines 165-171); the first argument counts the
  iterations that are left.
\<close>

fun generateRandomString_loop ::
  "nat \<Rightarrow> jsstring \<Rightarrow> jsstring \<Rightarrow> world \<Rightarrow> ((string + jsstring) \<times> world) option" where
  "generateRandomString_loop 0 characters randomString w = Some (Inr randomString, w)"
| "generateRandomString_loop (Suc n) characters randomString w =
     Option.bind (getRandomByteInRange 0 (int (length characters) - 1) w) (\<lambda>rw.
       case fst rw of
         Inl e \<Rightarrow> Some (Inl e, snd rw)
       | Inr i \<Rightarrow>
           generateRandomString_loop n characters (randomString @ charAt characters i) (snd rw))"

definition generateRandomString ::
  "nat \<Rightarrow> jsstring \<Rightarrow> world \<Rightarrow> ((string + jsstring) \<times> world) option" where
  "generateRandomString len characters w = generateRandomString_loop len characters [] w"

definition now :: "world \<Rightarrow> int \<times> world" where
  "now w = (clock w (ticks w), w\<lparr> ticks := ticks w + 1 \<rparr>)"

definition passwordChars :: "options \<Rightarrow> jsstring" where
  "passwordChars opts =
     (if useUppercase opts then str ''ABCDEFGHIJKLMNOPQRSTUVWXYZ'' else [])
     @ (if useLowercase opts then str ''abcdefghijklmnopqrstuvwxyz'' else [])
     @ (if useDigits opts then str ''0123456789'' else [])
     @ (if useSymbols opts then symbols opts else [])"

text \<open>
  The \<^verbatim>\<open>do ... while\<close> of \<^verbatim>\<open>generatePassword\<close> (lines 205-215). The result
  \<open>Inr None\<close> is \<^verbatim>\<open>null\<close>, \<open>Inl m\<close> is the thrown error. \<^verbatim>\<open>timeout * 1000\<close> may be rounded.
\<close>

partial_function (option) generatePassword_loop ::
  "(real \<Rightarrow> real) \<Rightarrow> (jschar \<Rightarrow> classification) \<Rightarrow> options \<Rightarrow> real \<Rightarrow> int \<Rightarrow> world
     \<Rightarrow> ((string + jsstring option) \<times> world) option" where
  "generatePassword_loop rnd classifyCharacter opts timeout startTime w =
     Option.bind (generateRandomString (passwordLength opts) (passwordChars opts) w) (\<lambda>rw.
       case fst rw of
         Inl e \<Rightarrow> Some (Inl e, snd rw)
       | Inr password \<Rightarrow>
           (case now (snd rw) of (t, w') \<Rightarrow>
              if real_of_int (t - startTime) \<ge> rnd (timeout * 1000) then Some (Inr None, w')
              else if passwordIsValid rnd classifyCharacter password opts
                   then Some (Inr (Some password), w')
              else generatePassword_loop rnd classifyCharacter opts timeout startTime w'))"

definition generatePassword ::
  "(real \<Rightarrow> real) \<Rightarrow> (jschar \<Rightarrow> classification) \<Rightarrow> options \<Rightarrow> real \<Rightarrow> world
     \<Rightarrow> ((string + jsstring option) \<times> world) option" where
  "generatePassword rnd classifyCharacter opts timeout w =
     (case now w of (startTime, w') \<Rightarrow>
        generatePassword_loop rnd classifyCharacter opts timeout startTime w')"



section \<open>Several invocations of getRandomByte at once\<close>

text \<open>
  The worker is single-threaded: code runs from one suspension point to the next without
  interruption. A state is the worker's state with the invocations of \<^verbatim>\<open>getRandomByte\<close>
  made so far. In one step a new invocation is entered, or the next response of the main
  thread is handled, or an invocation whose promise is settled is resumed.
\<close>

inductive step :: "world \<times> invocation list \<Rightarrow> world \<times> invocation list \<Rightarrow> bool" where
  call: "getRandomByte_enter w = (c, w') \<Longrightarrow> step (w, cs) (w', cs @ [c])"
| respond: "deliver w = Some w' \<Longrightarrow> step (w, cs) (w', cs)"
| resume: "i < length cs \<Longrightarrow> cs ! i = Awaiting p \<Longrightarrow> settled w p = Some out
           \<Longrightarrow> getRandomByte_resume out w = (c, w') \<Longrightarrow> step (w, cs) (w', cs[i := c])"

inductive reachable :: "world \<times> invocation list \<Rightarrow> bool" where
  start: "reachable (initialWorld rs clk, [])"
| after: "reachable s \<Longrightarrow> step s s' \<Longrightarrow> reachable s'"

section \<open>Notions used to state the properties\<close>

text \<open>
  No refill is in flight: the state in which a task that runs alone enters and leaves
  every call of \<^verbatim>\<open>getRandomByte\<close>.
\<close>

definition idle :: "world \<Rightarrow> bool" where
  "idle w \<longleftrightarrow>
     regenerationPromise w = None \<and> listeners w = [] \<and> (\<forall>p \<ge> created w. settled w p = None)"

text \<open>The state after one refill, request and response, that started in an idle state.\<close>

definition refilled :: "response \<Rightarrow> world \<Rightarrow> world" where
  "refilled r w =
     w\<lparr> buffer := messageBuffer r, numRead := 0, regenerationPromise := None,
        created := created w + 1,
        settled := (settled w)(created w := Some (if responseCode r = OK then Resolved
                                                  else Rejected (messageText r))),
        listeners := [],
        outbox := outbox w @ [REQUEST_GET_RANDOM_BYTES (buffer w)],
        entropy := tl (entropy w) \<rparr>"



definition allOK :: "response list \<Rightarrow> bool" where
  "allOK cs \<longleftrightarrow> (\<forall>c \<in> set cs. responseCode c = OK)"





text \<open>The refill requests that were posted and are not answered yet.\<close>

definition outstanding :: "world \<Rightarrow> promise list" where
  "outstanding w = filter (\<lambda>p. settled w p = None) [0..<created w]"

fun isRequest :: "message \<Rightarrow> bool" where
  "isRequest (REQUEST_GET_RANDOM_BYTES b) = True"
| "isRequest (RESPONSE_GENERATE_PASSWORD c d) = False"

text \<open>\<open>n\<close> invocations of \<^verbatim>\<open>getRandomByte\<close> entered one after the other.\<close>

fun enterMany :: "nat \<Rightarrow> world \<Rightarrow> invocation list \<times> world" where
  "enterMany 0 w = ([], w)"
| "enterMany (Suc n) w =
     (case getRandomByte_enter w of (c, w') \<Rightarrow>
        (case enterMany n w' of (cs, w'') \<Rightarrow> (c # cs, w'')))"

definition poolInv :: "world \<Rightarrow> bool" where
  "poolInv w \<longleftrightarrow>
     listeners w = (case regenerationPromise w of None \<Rightarrow> [] | Some p \<Rightarrow> [p])
   \<and> (\<forall>p. settled w p = None \<longleftrightarrow> (created w \<le> p \<or> regenerationPromise w = Some p))
   \<and> (\<forall>p. regenerationPromise w = Some p \<longrightarrow> p < created w \<and> buffer w = [])
   \<and> (regenerationPromise w = None \<longrightarrow> numRead w \<le> length (buffer w))
   \<and> length (filter isRequest (outbox w)) = created w"

definition callersInv :: "world \<Rightarrow> invocation list \<Rightarrow> bool" where
  "callersInv w cs \<longleftrightarrow> (\<forall>p. Awaiting p \<in> set cs \<longrightarrow> p < created w)"

text \<open>The number of characters of a class, as the spec's validator counts them.\<close>

definition countOf :: "(jschar \<Rightarrow> classification) \<Rightarrow> classification \<Rightarrow> jsstring \<Rightarrow> nat" where
  "countOf classifyCharacter k password = length (filter (\<lambda>c. classifyCharacter c = k) password)"

section \<open>Example inputs\<close>

text \<open>
  A classifier for the examples: ASCII letters and digits by their ranges, the other
  printable ASCII characters as symbols. The theorems hold for every classifier.
\<close>

definition exampleClassifier :: "jschar \<Rightarrow> classification" where
  "exampleClassifier c =
     (if 65 \<le> c \<and> c \<le> 90 then Uppercase
      else if 97 \<le> c \<and> c \<le> 122 then Lowercase
      else if 48 \<le> c \<and> c \<le> 57 then Digit
      else if 33 \<le> c \<and> c \<le> 126 then Symbol
      else Other)"

text \<open>A clock that advances by one second between two readings.\<close>

definition exampleClock :: "nat \<Rightarrow> int" where
  "exampleClock k = 1000 * int k"

definition okResponse :: response where
  "okResponse = \<lparr> responseCode = OK, messageBuffer = [250, 3, 7], messageText = [] \<rparr>"

definition failedResponse :: response where
  "failedResponse = \<lparr> responseCode = ERROR, messageBuffer = [], messageText = ''no entropy'' \<rparr>"

text \<open>The options of \<^verbatim>\<open>App\<close> with the case balance of the spec's test.\<close>

definition exampleOptions :: options where
  "exampleOptions =
     \<lparr> passwordLength = 8, minDigitProportion = 0, minSymbolProportion = 0,
       maxCaseVariance = 1 / 10, useLowercase = True, useUppercase = True,
       useDigits = True, useSymbols = True, symbols = str ''!@#$%&*_?'' \<rparr>"

definition digitOptions :: options where
  "digitOptions =
     \<lparr> passwordLength = 2, minDigitProportion = 1 / 2, minSymbolProportion = 0,
       maxCaseVariance = 0, useLowercase = False, useUppercase = False,
       useDigits = True, useSymbols = False, symbols = str ''!@#$%&*_?'' \<rparr>"

definition noOptions :: options where
  "noOptions =
     \<lparr> passwordLength = 1, minDigitProportion = 0, minSymbolProportion = 0,
       maxCaseVariance = 0, useLowercase = False, useUppercase = False,
       useDigits = False, useSymbols = False, symbols = [] \<rparr>"

section \<open>The pool, one task at a time\<close>

lemma getRandomByte_enter_eq:
  "getRandomByte_enter w =
     (if numRead w \<ge> length (buffer w)
      then (case regenerateRandomPool w of (p, w') \<Rightarrow> (Awaiting p, w'))
      else readByte w)"
  by (subst getRandomByte_enter.simps) simp


lemma getRandomByte_read:
  "numRead w < length (buffer w) \<Longrightarrow>
   getRandomByte w = Some (Inr (buffer w ! numRead w), w\<lparr> numRead := numRead w + 1 \<rparr>)"
  by (simp add: getRandomByte_def getRandomByte_enter_eq readByte_def complete.simps)

lemma await_settled: "settled w p = Some out \<Longrightarrow> await p w = Some (out, w)"
  by (subst await.simps) simp

lemma await_pending: "settled w p = None \<Longrightarrow> await p w = Option.bind (deliver w) (await p)"
  by (subst await.simps) simp

lemma await_idle:
  assumes "idle w" "length (buffer w) \<le> numRead w"
  shows "Option.bind (case regenerateRandomPool w of (p, w') \<Rightarrow> Some (p, w')) (\<lambda>pw. await (fst pw) (snd pw))
         = (case entropy w of [] \<Rightarrow> None
            | r # rs \<Rightarrow> Some (if responseCode r = OK then Resolved else Rejected (messageText r), refilled r w))"
proof -
  define w1 where "w1 = w\<lparr> regenerationPromise := Some (created w), created := created w + 1,
              listeners := listeners w @ [created w],
              outbox := outbox w @ [REQUEST_GET_RANDOM_BYTES (buffer w)], buffer := [] \<rparr>"
  have reg: "regenerateRandomPool w = (created w, w1)"
    using assms(1) by (simp add: regenerateRandomPool_def idle_def w1_def)
  have pend: "settled w1 (created w) = None" using assms(1) by (simp add: idle_def w1_def)
  show ?thesis
  proof (cases "entropy w")
    case Nil
    then have "deliver w1 = None" by (simp add: deliver_def w1_def)
    then show ?thesis using reg Nil await_pending [OF pend] by simp
  next
    case (Cons r rs)
    have d: "deliver w1 = Some (refilled r w)"
      using assms(1) Cons by (simp add: deliver_def w1_def onMessageListener_def refilled_def idle_def)
    have "settled (refilled r w) (created w)
            = Some (if responseCode r = OK then Resolved else Rejected (messageText r))"
      by (simp add: refilled_def)
    then have "await (created w) (refilled r w)
            = Some (if responseCode r = OK then Resolved else Rejected (messageText r), refilled r w)"
      by (rule await_settled)
    then show ?thesis using reg Cons await_pending [OF pend] d by simp
  qed
qed

lemma getRandomByte_idle:
  assumes "idle w"
  shows "getRandomByte w =
     (if numRead w < length (buffer w)
      then Some (Inr (buffer w ! numRead w), w\<lparr> numRead := numRead w + 1 \<rparr>)
      else (case entropy w of
              [] \<Rightarrow> None
            | r # rs \<Rightarrow> (if responseCode r = OK then getRandomByte (refilled r w)
                         else Some (Inl (messageText r), refilled r w))))"
proof (cases "numRead w < length (buffer w)")
  case True
  then show ?thesis by (simp add: getRandomByte_read)
next
  case False
  then have ex: "length (buffer w) \<le> numRead w" by simp
  obtain p w1 where reg: "regenerateRandomPool w = (p, w1)" by (cases "regenerateRandomPool w")
  have aw: "await p w1 = (case entropy w of [] \<Rightarrow> None
            | r # rs \<Rightarrow> Some (if responseCode r = OK then Resolved else Rejected (messageText r), refilled r w))"
    using await_idle [OF assms ex] reg by simp
  have g: "getRandomByte w = Option.bind (await p w1) (\<lambda>ow. complete (getRandomByte_resume (fst ow) (snd ow)))"
    using ex reg by (simp add: getRandomByte_def getRandomByte_enter_eq complete.simps)
  show ?thesis
  proof (cases "entropy w")
    case Nil
    then show ?thesis using False g aw by simp
  next
    case (Cons r rs)
    show ?thesis
    proof (cases "responseCode r = OK")
      case True
      have "complete (getRandomByte_resume Resolved (refilled r w)) = getRandomByte (refilled r w)"
        by (simp add: getRandomByte_resume_def getRandomByte_def getRandomByte_enter_eq)
      then show ?thesis using False g aw Cons True by simp
    next
      case ne: False
      then show ?thesis using False g aw Cons by (simp add: getRandomByte_resume_def complete.simps)
    qed
  qed
qed

lemma getRandomByteInRange_step:
  "getRandomByte w = Some (res, w1) \<Longrightarrow>
   getRandomByteInRange mn mx w =
     (case res of
        Inl e \<Rightarrow> Some (Inl e, w1)
      | Inr b \<Rightarrow> (if exceeds (uint b) (rejectionLimit (mx - mn + 1))
                  then getRandomByteInRange mn mx w1
                  else Some (Inr (inRange mn (mx - mn + 1) (uint b)), w1)))"
  by (subst getRandomByteInRange.simps) (simp split: sum.splits)

lemma getRandomByteInRange_None:
  "getRandomByte w = None \<Longrightarrow> getRandomByteInRange mn mx w = None"
  by (subst getRandomByteInRange.simps) simp

lemma inRange_bounds:
  assumes "mn \<le> mx"
  shows "\<exists>r. inRange mn (mx - mn + 1) x = Fin r \<and> mn \<le> r \<and> r \<le> mx"
proof -
  have s: "0 < mx - mn + 1" using assms by simp
  have lo: "0 \<le> x mod (mx - mn + 1)" using s by (rule pos_mod_sign)
  have hi: "x mod (mx - mn + 1) < mx - mn + 1" using s by (rule pos_mod_bound)
  have "inRange mn (mx - mn + 1) x = Fin (x mod (mx - mn + 1) + mn)"
    using s by (simp add: inRange_def)
  moreover have "mn \<le> x mod (mx - mn + 1) + mn" using lo by linarith
  moreover have "x mod (mx - mn + 1) + mn \<le> mx" using hi by linarith
  ultimately show ?thesis by blast
qed

lemma getRandomByteInRange_range:
  assumes "getRandomByteInRange mn mx w = Some (Inr v, w')" "mn \<le> mx"
  shows "\<exists>r. v = Fin r \<and> mn \<le> r \<and> r \<le> mx"
proof -
  define P where "P = (\<lambda>(mn :: int) (mx :: int) (w :: world) (y :: (string + int jsnum) \<times> world).
     mn \<le> mx \<longrightarrow> (\<forall>v. fst y = Inr v \<longrightarrow> (\<exists>r. v = Fin r \<and> mn \<le> r \<and> r \<le> mx)))"
  have "P mn mx w (Inr v, w')"
  proof (rule getRandomByteInRange.raw_induct [where P = P, OF _ assms(1)])
    fix rec :: "int \<Rightarrow> int \<Rightarrow> world \<Rightarrow> ((string + int jsnum) \<times> world) option"
    fix mn mx w y
    assume IH: "\<And>mn mx w y. rec mn mx w = Some y \<Longrightarrow> P mn mx w y"
    assume eq: "Option.bind (getRandomByte w)
      (\<lambda>rw. case fst rw of Inl e \<Rightarrow> Some (Inl e, snd rw)
            | Inr randomUint8 \<Rightarrow>
                if exceeds (uint randomUint8) (rejectionLimit (mx - mn + 1))
                then rec mn mx (snd rw)
                else Some (Inr (inRange mn (mx - mn + 1) (uint randomUint8)), snd rw)) = Some y"
    show "P mn mx w y"
      unfolding P_def
    proof (intro impI allI)
      fix v assume le: "mn \<le> mx" and v: "fst y = Inr v"
      from eq obtain res w1 where g: "getRandomByte w = Some (res, w1)"
        by (cases "getRandomByte w") auto
      show "\<exists>r. v = Fin r \<and> mn \<le> r \<and> r \<le> mx"
      proof (cases res)
        case (Inl e)
        then show ?thesis using eq g v by auto
      next
        case (Inr b)
        show ?thesis
        proof (cases "exceeds (uint b) (rejectionLimit (mx - mn + 1))")
          case True
          then have "rec mn mx w1 = Some y" using eq g Inr by simp
          then have "P mn mx w1 y" by (rule IH)
          then show ?thesis using le v by (simp add: P_def)
        next
          case False
          then have "v = inRange mn (mx - mn + 1) (uint b)" using eq g Inr v by auto
          then show ?thesis using inRange_bounds [OF le] by simp
        qed
      qed
    qed
  qed
  then show ?thesis using assms(2) by (simp add: P_def)
qed













lemma charAt_in:
  "0 \<le> k \<Longrightarrow> k < int (length characters) \<Longrightarrow> charAt characters (Fin k) = [characters ! nat k]"
  by (simp add: charAt_def)

lemma generateRandomString_loop_content:
  "characters \<noteq> [] \<Longrightarrow> generateRandomString_loop n characters acc w = Some (Inr s, w') \<Longrightarrow>
   \<exists>t. s = acc @ t \<and> length t = n \<and> set t \<subseteq> set characters"
proof (induction n arbitrary: acc w)
  case 0
  then show ?case by simp
next
  case (Suc n)
  from Suc.prems(2) obtain rw where g: "getRandomByteInRange 0 (int (length characters) - 1) w = Some rw"
    by (cases "getRandomByteInRange 0 (int (length characters) - 1) w") auto
  show ?case
  proof (cases "fst rw")
    case (Inl e)
    then show ?thesis using Suc.prems(2) g by auto
  next
    case (Inr i)
    have le: "(0::int) \<le> int (length characters) - 1" using Suc.prems(1) by (cases characters) auto
    have "getRandomByteInRange 0 (int (length characters) - 1) w = Some (Inr i, snd rw)"
      using g Inr by (cases rw) simp
    from getRandomByteInRange_range [OF this le]
    obtain k where k: "i = Fin k" "0 \<le> k" "k \<le> int (length characters) - 1" by blast
    then have c: "charAt characters i = [characters ! nat k]" by (simp add: charAt_in)
    have mem: "characters ! nat k \<in> set characters" using k by (simp add: nat_less_iff)
    have "generateRandomString_loop n characters (acc @ [characters ! nat k]) (snd rw) = Some (Inr s, w')"
      using Suc.prems(2) g Inr c by simp
    from Suc.IH [OF Suc.prems(1) this] obtain t where
      t: "s = (acc @ [characters ! nat k]) @ t" "length t = n" "set t \<subseteq> set characters" by blast
    then show ?thesis using mem by (intro exI [of _ "(characters ! nat k) # t"]) simp
  qed
qed

lemma generateRandomString_content:
  "characters \<noteq> [] \<Longrightarrow> generateRandomString n characters w = Some (Inr s, w') \<Longrightarrow>
   length s = n \<and> set s \<subseteq> set characters"
  using generateRandomString_loop_content [of characters n "[]" w s w']
  by (auto simp: generateRandomString_def)




lemma generatePassword_loop_valid:
  assumes "generatePassword_loop rnd cls opts timeout st w = Some (Inr (Some p), w')"
  shows "passwordIsValid rnd cls p opts
     \<and> (passwordChars opts \<noteq> [] \<longrightarrow> length p = passwordLength opts \<and> set p \<subseteq> set (passwordChars opts))"
proof -
  define P where "P = (\<lambda>(rnd :: real \<Rightarrow> real) (cls :: jschar \<Rightarrow> classification) (opts :: options)
      (timeout :: real) (st :: int) (w :: world) (y :: (string + jsstring option) \<times> world).
      \<forall>p. fst y = Inr (Some p) \<longrightarrow> passwordIsValid rnd cls p opts
        \<and> (passwordChars opts \<noteq> [] \<longrightarrow> length p = passwordLength opts \<and> set p \<subseteq> set (passwordChars opts)))"
  have "P rnd cls opts timeout st w (Inr (Some p), w')"
  proof (rule generatePassword_loop.raw_induct [where P = P, OF _ assms], goal_cases)
    case (1 rec rnd cls opts timeout st w y)
    from "1"(2) obtain rw where g: "generateRandomString (passwordLength opts) (passwordChars opts) w = Some rw"
      by (cases "generateRandomString (passwordLength opts) (passwordChars opts) w") auto
    show ?case
    proof (cases "fst rw")
      case (Inl e)
      then show ?thesis using "1"(2) g by (auto simp: P_def)
    next
      case (Inr cand)
      have gc: "generateRandomString (passwordLength opts) (passwordChars opts) w = Some (Inr cand, snd rw)"
        using g Inr by (cases rw) simp
      obtain t w2 where n: "now (snd rw) = (t, w2)" by (cases "now (snd rw)")
      show ?thesis
      proof (cases "real_of_int (t - st) \<ge> rnd (timeout * 1000)")
        case True
        then show ?thesis using "1"(2) g Inr n by (auto simp: P_def)
      next
        case late: False
        show ?thesis
        proof (cases "passwordIsValid rnd cls cand opts")
          case True
          then have "fst y = Inr (Some cand)" using "1"(2) g Inr n late by auto
          then show ?thesis using True generateRandomString_content [OF _ gc] by (auto simp: P_def)
        next
          case False
          then have "rec rnd cls opts timeout st w2 = Some y" using "1"(2) g Inr n late by simp
          then have "P rnd cls opts timeout st w2 y" by (rule "1"(1))
          then show ?thesis by (simp add: P_def)
        qed
      qed
    qed
  qed
  then show ?thesis by (simp add: P_def)
qed


section \<open>What a call does to the pool\<close>

lemma allOK_append: "allOK (cs @ ds) \<longleftrightarrow> allOK cs \<and> allOK ds"
  by (auto simp: allOK_def)













section \<open>Counting the accepted bytes\<close>

lemma card_residue:
  fixes s t q :: int
  assumes "0 \<le> t" "t < s" "0 \<le> q"
  shows "card {x. 0 \<le> x \<and> x < q * s \<and> x mod s = t} = nat q"
proof -
  have s: "0 < s" using assms by linarith
  have eq: "{x. 0 \<le> x \<and> x < q * s \<and> x mod s = t} = (\<lambda>k. k * s + t) ` {0..<q}"
  proof (rule set_eqI, rule iffI)
    fix x assume "x \<in> {x. 0 \<le> x \<and> x < q * s \<and> x mod s = t}"
    then have x: "0 \<le> x" "x < q * s" "x mod s = t" by auto
    have split: "x = (x div s) * s + t" using x(3) by (metis div_mult_mod_eq)
    have "0 \<le> x div s" using x(1) s by (simp add: pos_imp_zdiv_nonneg_iff)
    moreover have "x div s < q"
    proof (rule ccontr)
      assume "\<not> x div s < q"
      then have "q * s \<le> x div s * s" using s by (simp add: mult_right_mono)
      then show False using split x(2) assms(1) by linarith
    qed
    ultimately show "x \<in> (\<lambda>k. k * s + t) ` {0..<q}" using split by auto
  next
    fix x assume "x \<in> (\<lambda>k. k * s + t) ` {0..<q}"
    then obtain k where k: "0 \<le> k" "k < q" "x = k * s + t" by auto
    have "0 \<le> k * s" using k(1) s by simp
    then have "0 \<le> x" using k(3) assms(1) by linarith
    moreover have "k * s + t < q * s"
    proof -
      have "k + 1 \<le> q" using k(2) by simp
      then have "(k + 1) * s \<le> q * s" using s by (simp add: mult_right_mono)
      then show ?thesis using assms(2) by (simp add: algebra_simps)
    qed
    moreover have "x mod s = t" using k(3) assms by simp
    ultimately show "x \<in> {x. 0 \<le> x \<and> x < q * s \<and> x mod s = t}" using k(3) by simp
  qed
  have "inj_on (\<lambda>k. k * s + t) {0..<q}" using s by (auto simp: inj_on_def)
  then show ?thesis unfolding eq by (simp add: card_image)
qed

lemma card_bytes:
  "card {b :: byte. P (uint b)} = card {x. 0 \<le> x \<and> x < 256 \<and> P x}"
proof -
  have "uint ` {b :: byte. P (uint b)} = {x. 0 \<le> x \<and> x < 256 \<and> P x}"
  proof (rule set_eqI, rule iffI)
    fix x assume "x \<in> uint ` {b :: byte. P (uint b)}"
    then obtain b :: byte where "x = uint b" "P (uint b)" by auto
    moreover have "uint b < 256" using uint_bounded [of b] by simp
    ultimately show "x \<in> {x. 0 \<le> x \<and> x < 256 \<and> P x}" by simp
  next
    fix x assume "x \<in> {x. 0 \<le> x \<and> x < 256 \<and> P x}"
    then have x: "0 \<le> x" "x < 256" "P x" by auto
    then have "uint (word_of_int x :: byte) = x" by (simp add: uint_word_of_int take_bit_int_eq_self)
    then show "x \<in> uint ` {b :: byte. P (uint b)}" using x(3) by (metis (mono_tags, lifting) image_eqI mem_Collect_eq)
  qed
  moreover have "inj_on uint {b :: byte. P (uint b)}" by (auto simp: inj_on_def word_uint_eq_iff)
  ultimately show ?thesis by (metis card_image)
qed

lemma span_facts:
  fixes mn mx :: int
  assumes "0 \<le> mn" "mn \<le> mx" "mx \<le> 255"
  shows "0 < mx - mn + 1" "mx - mn + 1 \<le> 256" "0 < 256 div (mx - mn + 1)"
    "256 div (mx - mn + 1) * (mx - mn + 1) \<le> 256"
proof -
  show s: "0 < mx - mn + 1" using assms by linarith
  show le: "mx - mn + 1 \<le> 256" using assms by linarith
  show "0 < 256 div (mx - mn + 1)" using s le by (simp add: pos_imp_zdiv_pos_iff)
  have "256 div (mx - mn + 1) * (mx - mn + 1) + 256 mod (mx - mn + 1) = 256"
    by (rule div_mult_mod_eq)
  moreover have "0 \<le> (256::int) mod (mx - mn + 1)" using s by simp
  ultimately show "256 div (mx - mn + 1) * (mx - mn + 1) \<le> 256" by linarith
qed

lemma uniform_preimages:
  fixes mn mx r :: int
  assumes "0 \<le> mn" "mn \<le> mx" "mx \<le> 255" "mn \<le> r" "r \<le> mx"
  shows "card {b :: byte. \<not> exceeds (uint b) (rejectionLimit (mx - mn + 1))
                 \<and> inRange mn (mx - mn + 1) (uint b) = Fin r} = nat (256 div (mx - mn + 1))
       \<and> card {b :: byte. \<not> exceeds (uint b) (rejectionLimit (mx - mn + 1))}
           = nat (256 div (mx - mn + 1)) * nat (mx - mn + 1)"
proof -
  define s where "s = mx - mn + 1"
  define q where "q = 256 div s"
  have s: "0 < s" and q: "0 < q" and qs: "q * s \<le> 256"
    using span_facts [OF assms(1-3)] by (simp_all add: s_def q_def)
  have lim: "rejectionLimit s = Fin (q * s - 1)" using s by (simp add: rejectionLimit_def q_def)
  have rng: "\<And>x. inRange mn s x = Fin (x mod s + mn)" using s by (simp add: inRange_def)
  have "{x. 0 \<le> x \<and> x < 256 \<and> \<not> exceeds x (rejectionLimit s) \<and> inRange mn s x = Fin r}
        = {x. 0 \<le> x \<and> x < q * s \<and> x mod s = r - mn}"
    using qs by (auto simp: lim rng)
  then have one: "card {b :: byte. \<not> exceeds (uint b) (rejectionLimit s) \<and> inRange mn s (uint b) = Fin r} = nat q"
    using card_bytes [of "\<lambda>x. \<not> exceeds x (rejectionLimit s) \<and> inRange mn s x = Fin r"]
      card_residue [of "r - mn" s q] assms q by (simp add: s_def)
  have "{x. 0 \<le> x \<and> x < 256 \<and> \<not> exceeds x (rejectionLimit s)} = {0..<q * s}"
    using qs by (auto simp: lim)
  then have "card {b :: byte. \<not> exceeds (uint b) (rejectionLimit s)} = nat (q * s)"
    using card_bytes [of "\<lambda>x. \<not> exceeds x (rejectionLimit s)"] by simp
  then have all: "card {b :: byte. \<not> exceeds (uint b) (rejectionLimit s)} = nat q * nat s"
    using q s by (simp add: nat_mult_distrib)
  show ?thesis using one all by (simp add: s_def q_def)
qed

section \<open>The validator's counts\<close>

lemma getOrZero_count:
  "getOrZero (case m (cls c) of None \<Rightarrow> m(cls c \<mapsto> 1) | Some n \<Rightarrow> m(cls c \<mapsto> n + 1)) k
     = getOrZero m k + (if cls c = k then 1 else 0)"
  by (cases "m (cls c)") (auto simp: getOrZero_def)

lemma characterCount_get:
  "getOrZero (characterCount cls pw m) k = getOrZero m k + countOf cls k pw"
proof (induction pw arbitrary: m)
  case Nil
  show ?case by (simp add: countOf_def)
next
  case (Cons c cs)
  have "getOrZero (characterCount cls (c # cs) m) k
        = getOrZero (case m (cls c) of None \<Rightarrow> m(cls c \<mapsto> 1) | Some n \<Rightarrow> m(cls c \<mapsto> n + 1)) k
          + countOf cls k cs"
    by (simp only: characterCount.simps Cons)
  also have "\<dots> = getOrZero m k + (if cls c = k then 1 else 0) + countOf cls k cs"
    by (simp only: getOrZero_count)
  also have "\<dots> = getOrZero m k + countOf cls k (c # cs)"
    by (simp add: countOf_def)
  finally show ?case .
qed

lemma characterCount_empty:
  "getOrZero (characterCount cls pw Map.empty) k = countOf cls k pw"
  by (simp add: characterCount_get) (simp add: getOrZero_def)

lemma passwordIsValid_iff:
  "passwordIsValid rnd cls pw opts \<longleftrightarrow>
     (useDigits opts \<longrightarrow>
        js_ge (js_div rnd (countOf cls Digit pw) (length pw)) (minDigitProportion opts))
   \<and> (useSymbols opts \<and> symbols opts \<noteq> [] \<longrightarrow>
        js_ge (js_div rnd (countOf cls Symbol pw) (length pw)) (minSymbolProportion opts))
   \<and> (0 < countOf cls Lowercase pw + countOf cls Uppercase pw \<and> useUppercase opts \<and> useLowercase opts \<longrightarrow>
        2 * \<bar>rnd (rnd (real (countOf cls Lowercase pw)
                         / real (countOf cls Lowercase pw + countOf cls Uppercase pw)) - 1 / 2)\<bar>
          \<le> maxCaseVariance opts)"
  unfolding passwordIsValid_def Let_def characterCount_empty caseVariance_def
  by auto

section \<open>Invariants of the pool under interleaved invocations\<close>

lemma poolInv_initial: "poolInv (initialWorld rs clk)"
  by (simp add: poolInv_def initialWorld_def)

lemma poolInv_readByte:
  "poolInv w \<Longrightarrow> numRead w < length (buffer w) \<Longrightarrow> poolInv (snd (readByte w))"
  by (auto simp: poolInv_def readByte_def)

lemma poolInv_regenerate: "poolInv w \<Longrightarrow> poolInv (snd (regenerateRandomPool w))"
  by (cases "regenerationPromise w") (auto simp: poolInv_def regenerateRandomPool_def)

lemma created_regenerate: "created w \<le> created (snd (regenerateRandomPool w))"
  by (cases "regenerationPromise w") (auto simp: regenerateRandomPool_def)

lemma fst_regenerate: "poolInv w \<Longrightarrow> fst (regenerateRandomPool w) < created (snd (regenerateRandomPool w))"
  by (cases "regenerationPromise w") (auto simp: regenerateRandomPool_def poolInv_def)

lemma poolInv_enter: "poolInv w \<Longrightarrow> poolInv (snd (getRandomByte_enter w))"
  using poolInv_regenerate [of w] poolInv_readByte [of w]
  by (cases "regenerateRandomPool w") (auto simp: getRandomByte_enter_eq)

lemma created_enter: "created w \<le> created (snd (getRandomByte_enter w))"
  using created_regenerate [of w]
  by (cases "regenerateRandomPool w") (auto simp: getRandomByte_enter_eq readByte_def)

lemma enter_Awaiting:
  "poolInv w \<Longrightarrow> fst (getRandomByte_enter w) = Awaiting p \<Longrightarrow> p < created (snd (getRandomByte_enter w))"
  using fst_regenerate [of w]
  by (cases "regenerateRandomPool w") (auto simp: getRandomByte_enter_eq readByte_def split: if_splits)

lemma poolInv_resume: "poolInv w \<Longrightarrow> poolInv (snd (getRandomByte_resume out w))"
  using poolInv_enter [of w] poolInv_readByte [of w]
  by (cases out) (auto simp: getRandomByte_resume_def)

lemma created_resume: "created w \<le> created (snd (getRandomByte_resume out w))"
  using created_enter [of w]
  by (cases out) (auto simp: getRandomByte_resume_def readByte_def)

lemma resume_Awaiting:
  "poolInv w \<Longrightarrow> fst (getRandomByte_resume out w) = Awaiting p \<Longrightarrow> p < created (snd (getRandomByte_resume out w))"
  using enter_Awaiting [of w p]
  by (cases out) (auto simp: getRandomByte_resume_def readByte_def split: if_splits)

lemma deliver_cases:
  assumes "poolInv w" "deliver w = Some w'"
  shows "entropy w \<noteq> [] \<and>
    (case regenerationPromise w of
       None \<Rightarrow> w' = w\<lparr> entropy := tl (entropy w) \<rparr>
     | Some p \<Rightarrow> w' = onMessageListener (hd (entropy w)) p (w\<lparr> entropy := tl (entropy w) \<rparr>))"
  using assms by (cases "entropy w"; cases "regenerationPromise w") (auto simp: deliver_def poolInv_def)

lemma poolInv_deliver:
  assumes "poolInv w" "deliver w = Some w'"
  shows "poolInv w' \<and> created w' = created w"
proof (cases "regenerationPromise w")
  case None
  then have "w' = w\<lparr> entropy := tl (entropy w) \<rparr>" using deliver_cases [OF assms] by simp
  then show ?thesis using assms(1) by (simp add: poolInv_def)
next
  case (Some p)
  then have "w' = onMessageListener (hd (entropy w)) p (w\<lparr> entropy := tl (entropy w) \<rparr>)"
    using deliver_cases [OF assms] by simp
  then show ?thesis using assms(1) Some by (auto simp: poolInv_def onMessageListener_def)
qed

lemma step_inv:
  assumes "step s s'" "poolInv (fst s)" "callersInv (fst s) (snd s)"
  shows "poolInv (fst s') \<and> callersInv (fst s') (snd s')"
  using assms
proof (induction rule: step.induct)
  case (call w c w' cs)
  have w': "w' = snd (getRandomByte_enter w)" and c: "c = fst (getRandomByte_enter w)"
    using call.hyps by simp_all
  have "poolInv w'" using poolInv_enter call.prems(1) w' by simp
  moreover have "callersInv w' (cs @ [c])"
    using call.prems created_enter [of w] enter_Awaiting [of w] w' c
    by (fastforce simp: callersInv_def)
  ultimately show ?case by simp
next
  case (respond w w' cs)
  then show ?case using poolInv_deliver [of w w'] by (simp add: callersInv_def)
next
  case (resume i cs p w out c w')
  have w': "w' = snd (getRandomByte_resume out w)" and c: "c = fst (getRandomByte_resume out w)"
    using resume.hyps by simp_all
  have "poolInv w'" using poolInv_resume resume.prems(1) w' by simp
  moreover have "callersInv w' (cs[i := c])"
    unfolding callersInv_def
  proof (intro allI impI)
    fix q assume "Awaiting q \<in> set (cs[i := c])"
    then have "Awaiting q \<in> set cs \<or> Awaiting q = c"
      using set_update_subset_insert [of cs i c] by auto
    then show "q < created w'"
      using resume.prems created_resume [of w out] resume_Awaiting [of w out q] w' c
      by (fastforce simp: callersInv_def)
  qed
  ultimately show ?case by simp
qed

lemma reachable_inv: "reachable s \<Longrightarrow> poolInv (fst s) \<and> callersInv (fst s) (snd s)"
proof (induction rule: reachable.induct)
  case (start rs clk)
  show ?case by (simp add: poolInv_initial callersInv_def)
next
  case (after s s')
  then show ?case using step_inv by blast
qed

lemma filter_eq_upt: "p < n \<Longrightarrow> filter (\<lambda>q. q = p) [0..<n] = [p]"
proof (induction n)
  case 0
  then show ?case by simp
next
  case (Suc n)
  show ?case
  proof (cases "p < n")
    case True
    then show ?thesis using Suc.IH by simp
  next
    case False
    then have "p = n" using Suc.prems by simp
    then show ?thesis by (simp add: filter_empty_conv)
  qed
qed

lemma outstanding_inv:
  assumes "poolInv w"
  shows "outstanding w = (case regenerationPromise w of None \<Rightarrow> [] | Some p \<Rightarrow> [p])"
proof (cases "regenerationPromise w")
  case None
  then have "\<And>p. p < created w \<Longrightarrow> settled w p \<noteq> None" using assms by (auto simp: poolInv_def)
  then have "outstanding w = []" by (auto simp: outstanding_def filter_empty_conv)
  then show ?thesis using None by simp
next
  case (Some p)
  then have p: "p < created w" using assms by (simp add: poolInv_def)
  have eq: "\<And>q. q < created w \<Longrightarrow> (settled w q = None) = (q = p)"
    using assms Some by (auto simp: poolInv_def)
  have "filter (\<lambda>q. settled w q = None) [0..<created w] = filter (\<lambda>q. q = p) [0..<created w]"
    by (rule filter_cong) (auto simp: eq)
  also have "\<dots> = [p]" using p by (rule filter_eq_upt)
  finally show ?thesis using Some by (simp add: outstanding_def)
qed

section \<open>Evaluating runs\<close>

lemma getRandomByte_refill:
  "idle w \<Longrightarrow> length (buffer w) \<le> numRead w \<Longrightarrow> entropy w \<noteq> [] \<Longrightarrow>
   getRandomByte w =
     (if responseCode (hd (entropy w)) = OK then getRandomByte (refilled (hd (entropy w)) w)
      else Some (Inl (messageText (hd (entropy w))), refilled (hd (entropy w)) w))"
  using getRandomByte_idle [of w] by (cases "entropy w") auto

lemma getRandomByte_starved:
  "idle w \<Longrightarrow> length (buffer w) \<le> numRead w \<Longrightarrow> entropy w = [] \<Longrightarrow> getRandomByte w = None"
  using getRandomByte_idle [of w] by auto

lemma getRandomByteInRange_eval:
  "getRandomByteInRange mn mx w =
     (case getRandomByte w of
        None \<Rightarrow> None
      | Some rw \<Rightarrow>
          (case fst rw of
             Inl e \<Rightarrow> Some (Inl e, snd rw)
           | Inr b \<Rightarrow> (if exceeds (uint b) (rejectionLimit (mx - mn + 1))
                       then getRandomByteInRange mn mx (snd rw)
                       else Some (Inr (inRange mn (mx - mn + 1) (uint b)), snd rw))))"
  by (subst getRandomByteInRange.simps) (simp split: option.splits)

lemma generateRandomString_loop_eval:
  "generateRandomString_loop (Suc n) characters randomString w =
     (case getRandomByteInRange 0 (int (length characters) - 1) w of
        None \<Rightarrow> None
      | Some rw \<Rightarrow>
          (case fst rw of
             Inl e \<Rightarrow> Some (Inl e, snd rw)
           | Inr i \<Rightarrow> generateRandomString_loop n characters (randomString @ charAt characters i) (snd rw)))"
  by (simp split: option.splits)

lemma generateRandomString_loop_numeral:
  "generateRandomString_loop (numeral k) characters randomString w =
     (case getRandomByteInRange 0 (int (length characters) - 1) w of
        None \<Rightarrow> None
      | Some rw \<Rightarrow>
          (case fst rw of
             Inl e \<Rightarrow> Some (Inl e, snd rw)
           | Inr i \<Rightarrow> generateRandomString_loop (pred_numeral k) characters (randomString @ charAt characters i) (snd rw)))"
  by (simp add: numeral_eq_Suc split: option.splits)

lemma generatePassword_loop_eval:
  "generatePassword_loop rnd cls opts timeout st w =
     (case generateRandomString (passwordLength opts) (passwordChars opts) w of
        None \<Rightarrow> None
      | Some rw \<Rightarrow>
          (case fst rw of
             Inl e \<Rightarrow> Some (Inl e, snd rw)
           | Inr password \<Rightarrow>
               (if real_of_int (clock (snd rw) (ticks (snd rw)) - st) \<ge> rnd (timeout * 1000)
                then Some (Inr None, (snd rw)\<lparr> ticks := ticks (snd rw) + 1 \<rparr>)
                else if passwordIsValid rnd cls password opts
                     then Some (Inr (Some password), (snd rw)\<lparr> ticks := ticks (snd rw) + 1 \<rparr>)
                else generatePassword_loop rnd cls opts timeout st ((snd rw)\<lparr> ticks := ticks (snd rw) + 1 \<rparr>))))"
  by (subst generatePassword_loop.simps) (simp add: now_def split: option.splits sum.splits)

lemma run_result: "map_option fst r = Some x \<Longrightarrow> r = Some (x, snd (the r))"
  by (cases r) auto

lemmas example_simps = exampleClock_def okResponse_def failedResponse_def
  digitOptions_def noOptions_def exampleOptions_def exampleClassifier_def

lemmas pool_simps = getRandomByte_read getRandomByte_refill getRandomByte_starved
  refilled_def initialWorld_def idle_def

lemmas string_simps = getRandomByteInRange_eval generateRandomString_loop_eval
  generateRandomString_loop_numeral generateRandomString_def
  rejectionLimit_def inRange_def charAt_def passwordChars_def str_def

lemmas valid_simps = passwordIsValid_iff countOf_def js_div_def

lemma example_password:
  "map_option fst (generatePassword id exampleClassifier digitOptions 2 (initialWorld [okResponse] exampleClock))
     = Some (Inr (Some (str ''37'')))"
  unfolding generatePassword_def now_def
  apply (simp only: prod.case)
  apply (subst generatePassword_loop_eval)
  apply (simp add: example_simps pool_simps string_simps valid_simps del: generateRandomString_loop.simps(2))
  done

lemma example_undefined:
  "map_option fst (generatePassword id exampleClassifier noOptions 2 (initialWorld [okResponse] exampleClock))
     = Some (Inr (Some (str ''undefined'')))"
  unfolding generatePassword_def now_def
  apply (simp only: prod.case)
  apply (subst generatePassword_loop_eval)
  apply (simp add: example_simps pool_simps string_simps valid_simps del: generateRandomString_loop.simps(2))
  done


section \<open>The generator returns valid passwords\<close>

lemma generatePassword_valid:
  assumes "generatePassword rnd cls opts timeout w = Some (Inr (Some p), w')"
  shows "passwordIsValid rnd cls p opts
     \<and> (passwordChars opts \<noteq> [] \<longrightarrow> length p = passwordLength opts \<and> set p \<subseteq> set (passwordChars opts))"
  using assms generatePassword_loop_valid
  by (auto simp: generatePassword_def now_def)

text \<open>
  C1 (as amended). A password returned by \<^verbatim>\<open>generatePassword\<close> satisfies
  \<^verbatim>\<open>passwordIsValid\<close> for the options it was generated for. When the working alphabet,
  the concatenation of the enabled classes in the order uppercase, lowercase, digits,
  symbols, is not empty, the password has exactly \<open>passwordLength\<close> characters and each of
  them belongs to the alphabet.
\<close>

theorem generatePassword_returns_valid:
  "passwordChars opts =
       (if useUppercase opts then str ''ABCDEFGHIJKLMNOPQRSTUVWXYZ'' else [])
     @ (if useLowercase opts then str ''abcdefghijklmnopqrstuvwxyz'' else [])
     @ (if useDigits opts then str ''0123456789'' else [])
     @ (if useSymbols opts then symbols opts else [])
   \<and> (generatePassword rnd cls opts timeout w = Some (Inr (Some p), w') \<longrightarrow>
        passwordIsValid rnd cls p opts
      \<and> (passwordChars opts \<noteq> [] \<longrightarrow>
           length p = passwordLength opts \<and> set p \<subseteq> set (passwordChars opts)))"
  using generatePassword_valid [of rnd cls opts timeout w p w']
  by (simp add: passwordChars_def)

theorem generatePassword_returns_valid_witness:
  "generatePassword id exampleClassifier digitOptions 2 (initialWorld [okResponse] exampleClock)
     = Some (Inr (Some (str ''37'')),
             snd (the (generatePassword id exampleClassifier digitOptions 2
                         (initialWorld [okResponse] exampleClock))))
   \<and> passwordChars digitOptions \<noteq> []
   \<and> passwordIsValid id exampleClassifier (str ''37'') digitOptions
   \<and> length (str ''37'') = passwordLength digitOptions
   \<and> set (str ''37'') \<subseteq> set (passwordChars digitOptions)"
proof -
  have run: "generatePassword id exampleClassifier digitOptions 2 (initialWorld [okResponse] exampleClock)
     = Some (Inr (Some (str ''37'')),
             snd (the (generatePassword id exampleClassifier digitOptions 2
                         (initialWorld [okResponse] exampleClock))))"
    using example_password by (rule run_result)
  have ne: "passwordChars digitOptions \<noteq> []"
    by (simp add: passwordChars_def digitOptions_def str_def)
  show ?thesis
    using run ne generatePassword_returns_valid
      [of digitOptions id exampleClassifier 2 "initialWorld [okResponse] exampleClock" "str ''37''"
        "snd (the (generatePassword id exampleClassifier digitOptions 2
                         (initialWorld [okResponse] exampleClock)))"]
    by blast
qed

theorem generatePassword_empty_alphabet_counterexample:
  "map_option fst (generatePassword id exampleClassifier noOptions 2
                     (initialWorld [okResponse] exampleClock))
     = Some (Inr (Some (str ''undefined'')))
   \<and> passwordLength noOptions = 1
   \<and> length (str ''undefined'') = 9
   \<and> passwordChars noOptions = []"
  using example_undefined by (simp add: noOptions_def str_def passwordChars_def)

section \<open>The sampler\<close>

lemma rejectionLimit_span:
  assumes "0 \<le> mn" "mn \<le> mx" "mx \<le> 255"
  shows "rejectionLimit (mx - mn + 1) = Fin (256 div (mx - mn + 1) * (mx - mn + 1) - 1)"
    and "inRange mn (mx - mn + 1) x = Fin (x mod (mx - mn + 1) + mn)"
  using assms by (simp_all add: rejectionLimit_def inRange_def)

lemma getRandomByteInRange_first_accepted:
  "numRead w + length rej < length (buffer w) \<Longrightarrow>
   take (Suc (length rej)) (drop (numRead w) (buffer w)) = rej @ [b] \<Longrightarrow>
   \<forall>x \<in> set rej. exceeds (uint x) (rejectionLimit (mx - mn + 1)) \<Longrightarrow>
   \<not> exceeds (uint b) (rejectionLimit (mx - mn + 1)) \<Longrightarrow>
   getRandomByteInRange mn mx w =
     Some (Inr (inRange mn (mx - mn + 1) (uint b)), w\<lparr> numRead := numRead w + length rej + 1 \<rparr>)"
proof (induction rej arbitrary: w)
  case Nil
  then have lt: "numRead w < length (buffer w)" by simp
  have "take (Suc 0) (drop (numRead w) (buffer w)) = [buffer w ! numRead w]"
    using lt by (simp add: take_Suc_conv_app_nth)
  then have b: "buffer w ! numRead w = b" using Nil.prems(2) by simp
  show ?case
    using getRandomByteInRange_step [OF getRandomByte_read [OF lt], of mn mx] b Nil.prems(4)
    by simp
next
  case (Cons r rej)
  then have lt: "numRead w < length (buffer w)" by simp
  have d: "drop (numRead w) (buffer w) = buffer w ! numRead w # drop (Suc (numRead w)) (buffer w)"
    using lt by (simp add: Cons_nth_drop_Suc)
  then have r: "buffer w ! numRead w = r"
    and t: "take (Suc (length rej)) (drop (Suc (numRead w)) (buffer w)) = rej @ [b]"
    using Cons.prems(2) by simp_all
  define w1 where "w1 = w\<lparr> numRead := numRead w + 1 \<rparr>"
  have g: "getRandomByte w = Some (Inr r, w1)"
    using getRandomByte_read [OF lt] r by (simp add: w1_def)
  have "exceeds (uint r) (rejectionLimit (mx - mn + 1))" using Cons.prems(3) by simp
  then have "getRandomByteInRange mn mx w = getRandomByteInRange mn mx w1"
    using getRandomByteInRange_step [OF g, of mn mx] by simp
  also have "\<dots> = Some (Inr (inRange mn (mx - mn + 1) (uint b)),
                        w1\<lparr> numRead := numRead w1 + length rej + 1 \<rparr>)"
  proof (rule Cons.IH)
    show "numRead w1 + length rej < length (buffer w1)" using Cons.prems(1) by (simp add: w1_def)
    show "take (Suc (length rej)) (drop (numRead w1) (buffer w1)) = rej @ [b]"
      using t by (simp add: w1_def)
    show "\<forall>x \<in> set rej. exceeds (uint x) (rejectionLimit (mx - mn + 1))"
      using Cons.prems(3) by simp
    show "\<not> exceeds (uint b) (rejectionLimit (mx - mn + 1))" using Cons.prems(4) .
  qed
  finally show ?case by (simp add: w1_def)
qed

text \<open>
  C2. For \<open>0 \<le> min \<le> max \<le> 255\<close>, with \<open>span = max - min + 1\<close>, the limit of
  \<^verbatim>\<open>getRandomByteInRange\<close> is \<open>floor (256 / span) * span - 1\<close>. A byte drawn from the
  pool that is greater than the limit is discarded and the loop draws again; the first
  byte that is not greater gives the result \<open>(byte mod span) + min\<close>: this is stated
  for one draw of \<^verbatim>\<open>getRandomByte\<close>, and for the unread bytes of the buffer, where the
  rejected bytes \<open>rej\<close> are followed by the accepted byte \<open>b\<close>. Every result lies in
  \<open>[min, max]\<close>. When the span is 256 the limit is 255 and no byte is rejected.
\<close>

theorem getRandomByteInRange_rejection_sampling:
  assumes "0 \<le> mn" "mn \<le> mx" "mx \<le> 255"
  shows
    "rejectionLimit (mx - mn + 1) = Fin (256 div (mx - mn + 1) * (mx - mn + 1) - 1)
   \<and> (\<forall>w b w1. getRandomByte w = Some (Inr b, w1) \<longrightarrow>
        getRandomByteInRange mn mx w =
          (if 256 div (mx - mn + 1) * (mx - mn + 1) - 1 < uint b
           then getRandomByteInRange mn mx w1
           else Some (Inr (Fin (uint b mod (mx - mn + 1) + mn)), w1)))
   \<and> (\<forall>w rej b.
        numRead w + length rej < length (buffer w)
        \<and> take (Suc (length rej)) (drop (numRead w) (buffer w)) = rej @ [b]
        \<and> (\<forall>x \<in> set rej. 256 div (mx - mn + 1) * (mx - mn + 1) - 1 < uint x)
        \<and> uint b \<le> 256 div (mx - mn + 1) * (mx - mn + 1) - 1 \<longrightarrow>
        getRandomByteInRange mn mx w =
          Some (Inr (Fin (uint b mod (mx - mn + 1) + mn)),
                w\<lparr> numRead := numRead w + length rej + 1 \<rparr>))
   \<and> (\<forall>w v w'. getRandomByteInRange mn mx w = Some (Inr v, w') \<longrightarrow>
        (\<exists>r. v = Fin r \<and> mn \<le> r \<and> r \<le> mx))
   \<and> (mx - mn + 1 = 256 \<longrightarrow>
        rejectionLimit (mx - mn + 1) = Fin 255
        \<and> (\<forall>b :: byte. \<not> exceeds (uint b) (rejectionLimit (mx - mn + 1))))"
proof (intro conjI allI impI)
  note lim = rejectionLimit_span(1) [OF assms]
  note rng = rejectionLimit_span(2) [OF assms]
  show "rejectionLimit (mx - mn + 1) = Fin (256 div (mx - mn + 1) * (mx - mn + 1) - 1)"
    by (rule lim)
  show "getRandomByteInRange mn mx w =
          (if 256 div (mx - mn + 1) * (mx - mn + 1) - 1 < uint b
           then getRandomByteInRange mn mx w1
           else Some (Inr (Fin (uint b mod (mx - mn + 1) + mn)), w1))"
    if "getRandomByte w = Some (Inr b, w1)" for w b w1
    using getRandomByteInRange_step [OF that, of mn mx] by (simp add: lim rng)
  show "getRandomByteInRange mn mx w =
          Some (Inr (Fin (uint b mod (mx - mn + 1) + mn)),
                w\<lparr> numRead := numRead w + length rej + 1 \<rparr>)"
    if "numRead w + length rej < length (buffer w)
        \<and> take (Suc (length rej)) (drop (numRead w) (buffer w)) = rej @ [b]
        \<and> (\<forall>x \<in> set rej. 256 div (mx - mn + 1) * (mx - mn + 1) - 1 < uint x)
        \<and> uint b \<le> 256 div (mx - mn + 1) * (mx - mn + 1) - 1" for w rej b
    using getRandomByteInRange_first_accepted [of w rej b mx mn] that
    by (simp add: lim rng)
  show "\<exists>r. v = Fin r \<and> mn \<le> r \<and> r \<le> mx"
    if "getRandomByteInRange mn mx w = Some (Inr v, w')" for w v w'
    using getRandomByteInRange_range [OF that assms(2)] .
  show "rejectionLimit (mx - mn + 1) = Fin 255" if "mx - mn + 1 = 256"
    using that by (simp add: rejectionLimit_def)
  show "\<not> exceeds (uint b) (rejectionLimit (mx - mn + 1))" if "mx - mn + 1 = 256" for b :: byte
  proof -
    have "uint b < 256" using uint_bounded [of b] by simp
    then show ?thesis using that by (simp add: rejectionLimit_def)
  qed
qed

theorem getRandomByteInRange_rejection_sampling_witness:
  "(0::int) \<le> 0 \<and> (0::int) \<le> 9 \<and> (9::int) \<le> 255
   \<and> rejectionLimit (9 - 0 + 1) = Fin 249
   \<and> getRandomByteInRange 0 9 (refilled okResponse (initialWorld [okResponse] exampleClock))
        = Some (Inr (Fin 3), (refilled okResponse (initialWorld [okResponse] exampleClock))\<lparr> numRead := 2 \<rparr>)
   \<and> rejectionLimit (255 - 0 + 1) = Fin 255"
proof -
  define w where "w = refilled okResponse (initialWorld [okResponse] exampleClock)"
  have b: "buffer w = [250, 3, 7]" "numRead w = 0" by (simp_all add: w_def refilled_def okResponse_def)
  have a: "numRead w + length [250 :: byte] < length (buffer w)
        \<and> take (Suc (length [250 :: byte])) (drop (numRead w) (buffer w)) = [250] @ [3]
        \<and> (\<forall>x \<in> set [250 :: byte]. 256 div (9 - 0 + 1) * (9 - 0 + 1) - 1 < uint x)
        \<and> uint (3 :: byte) \<le> 256 div (9 - 0 + 1) * (9 - 0 + 1) - 1"
    by (simp add: b)
  have h: "(0::int) \<le> 0" "(0::int) \<le> 9" "(9::int) \<le> 255" by simp_all
  have "\<forall>w rej b.
        numRead w + length rej < length (buffer w)
        \<and> take (Suc (length rej)) (drop (numRead w) (buffer w)) = rej @ [b]
        \<and> (\<forall>x \<in> set rej. 256 div (9 - 0 + 1) * (9 - 0 + 1) - 1 < uint x)
        \<and> uint b \<le> 256 div (9 - 0 + 1) * (9 - 0 + 1) - 1 \<longrightarrow>
        getRandomByteInRange 0 9 w =
          Some (Inr (Fin (uint b mod (9 - 0 + 1) + 0)),
                w\<lparr> numRead := numRead w + length rej + 1 \<rparr>)"
    using getRandomByteInRange_rejection_sampling [OF h] by blast
  from this [rule_format, OF a]
  have "getRandomByteInRange 0 9 w = Some (Inr (Fin 3), w\<lparr> numRead := 2 \<rparr>)"
    by (simp add: b)
  moreover have "rejectionLimit (9 - 0 + 1) = Fin 249"
    using getRandomByteInRange_rejection_sampling [of 0 9] by simp
  moreover have "rejectionLimit (255 - 0 + 1) = Fin 255"
    using getRandomByteInRange_rejection_sampling [of 0 255] by simp
  ultimately show ?thesis by (simp add: w_def)
qed

text \<open>
  C3. For \<open>0 \<le> min \<le> max \<le> 255\<close> and \<open>span = max - min + 1\<close>, each value \<open>r\<close> of
  \<open>[min, max]\<close> is the result of exactly \<open>floor (256 / span)\<close> of the bytes that pass
  the rejection test, and \<open>floor (256 / span) * span\<close> bytes pass it: each value has the
  same share of the accepted bytes, so uniform bytes give uniform results.
\<close>

theorem getRandomByteInRange_uniform:
  fixes mn mx r :: int
  assumes "0 \<le> mn" "mn \<le> mx" "mx \<le> 255" "mn \<le> r" "r \<le> mx"
  shows "card {b :: byte. \<not> exceeds (uint b) (rejectionLimit (mx - mn + 1))
                 \<and> inRange mn (mx - mn + 1) (uint b) = Fin r} = nat (256 div (mx - mn + 1))
       \<and> card {b :: byte. \<not> exceeds (uint b) (rejectionLimit (mx - mn + 1))}
           = nat (256 div (mx - mn + 1)) * nat (mx - mn + 1)"
  using uniform_preimages [OF assms] .

theorem getRandomByteInRange_uniform_witness:
  "(0::int) \<le> 0 \<and> (0::int) \<le> 9 \<and> (9::int) \<le> 255 \<and> (0::int) \<le> 4 \<and> (4::int) \<le> 9
   \<and> card {b :: byte. \<not> exceeds (uint b) (rejectionLimit 10) \<and> inRange 0 10 (uint b) = Fin 4} = 25
   \<and> card {b :: byte. \<not> exceeds (uint b) (rejectionLimit 10)} = 250"
  using getRandomByteInRange_uniform [of 0 9 4] by simp

section \<open>The validator\<close>

text \<open>
  C4. \<^verbatim>\<open>passwordIsValid\<close> returns true exactly when the three checks hold: if
  \<open>useDigits\<close>, the quotient of the number of digits by the length is at least
  \<open>minDigitProportion\<close>; if \<open>useSymbols\<close> and \<open>symbols\<close> is not empty, the quotient
  of the number of symbols by the length is at least \<open>minSymbolProportion\<close>; if the
  password has a letter and both cases are enabled, twice the distance of
  \<open>lowercase / letters\<close> from one half is at most \<open>maxCaseVariance\<close>. A check whose
  condition is false does not count. The quotients and \<open>\<ge>\<close> are JavaScript's.
\<close>

theorem passwordIsValid_characterisation:
  "passwordIsValid rnd cls pw opts \<longleftrightarrow>
     (useDigits opts \<longrightarrow>
        js_ge (js_div rnd (countOf cls Digit pw) (length pw)) (minDigitProportion opts))
   \<and> (useSymbols opts \<and> symbols opts \<noteq> [] \<longrightarrow>
        js_ge (js_div rnd (countOf cls Symbol pw) (length pw)) (minSymbolProportion opts))
   \<and> (0 < countOf cls Lowercase pw + countOf cls Uppercase pw
        \<and> useUppercase opts \<and> useLowercase opts \<longrightarrow>
        2 * \<bar>rnd (rnd (real (countOf cls Lowercase pw)
                         / real (countOf cls Lowercase pw + countOf cls Uppercase pw)) - 1 / 2)\<bar>
          \<le> maxCaseVariance opts)"
  by (rule passwordIsValid_iff)

theorem passwordIsValid_characterisation_witness:
  "useDigits exampleOptions \<and> useSymbols exampleOptions \<and> symbols exampleOptions \<noteq> []
   \<and> 0 < countOf exampleClassifier Lowercase (str ''AAAAaaaa'')
         + countOf exampleClassifier Uppercase (str ''AAAAaaaa'')
   \<and> useUppercase exampleOptions \<and> useLowercase exampleOptions
   \<and> passwordIsValid id exampleClassifier (str ''AAAAaaaa'') exampleOptions
   \<and> \<not> passwordIsValid id exampleClassifier (str ''AAAAAAaa'') exampleOptions"
  using passwordIsValid_characterisation [of id exampleClassifier "str ''AAAAaaaa''" exampleOptions]
    passwordIsValid_characterisation [of id exampleClassifier "str ''AAAAAAaa''" exampleOptions]
  by (simp add: countOf_def str_def exampleClassifier_def exampleOptions_def js_div_def)

lemma passwordIsValid_empty:
  "passwordIsValid rnd cls [] opts \<longleftrightarrow> \<not> useDigits opts \<and> \<not> (useSymbols opts \<and> symbols opts \<noteq> [])"
  by (simp add: passwordIsValid_iff countOf_def js_div_def)

lemma passwordIsValid_nonempty:
  "pw \<noteq> [] \<Longrightarrow>
   passwordIsValid rnd cls pw opts \<longleftrightarrow>
     (useDigits opts \<longrightarrow>
        minDigitProportion opts \<le> rnd (real (countOf cls Digit pw) / real (length pw)))
   \<and> (useSymbols opts \<and> symbols opts \<noteq> [] \<longrightarrow>
        minSymbolProportion opts \<le> rnd (real (countOf cls Symbol pw) / real (length pw)))
   \<and> (0 < countOf cls Lowercase pw + countOf cls Uppercase pw
        \<and> useUppercase opts \<and> useLowercase opts \<longrightarrow>
        2 * \<bar>rnd (rnd (real (countOf cls Lowercase pw)
                         / real (countOf cls Lowercase pw + countOf cls Uppercase pw)) - 1 / 2)\<bar>
          \<le> maxCaseVariance opts)"
  by (simp add: passwordIsValid_iff js_div_def)

lemma passwordIsValid_no_letters:
  "countOf cls Lowercase pw + countOf cls Uppercase pw = 0 \<Longrightarrow>
   passwordIsValid rnd cls pw (opts\<lparr> maxCaseVariance := v \<rparr>) = passwordIsValid rnd cls pw opts"
  by (simp add: passwordIsValid_iff)

text \<open>
  C5 (as amended). The case-variance check is skipped when the password has no letter:
  the result then does not depend on \<open>maxCaseVariance\<close>. The digit and symbol checks
  divide by the length of the password, which is not zero for a password that is not
  empty: there the three checks compare real quotients, and no quotient has a zero
  denominator.
\<close>

theorem passwordIsValid_denominators:
  "(countOf cls Lowercase pw + countOf cls Uppercase pw = 0 \<longrightarrow>
      passwordIsValid rnd cls pw (opts\<lparr> maxCaseVariance := v \<rparr>) = passwordIsValid rnd cls pw opts)
   \<and> (pw \<noteq> [] \<longrightarrow>
        (passwordIsValid rnd cls pw opts \<longleftrightarrow>
           (useDigits opts \<longrightarrow>
              minDigitProportion opts \<le> rnd (real (countOf cls Digit pw) / real (length pw)))
         \<and> (useSymbols opts \<and> symbols opts \<noteq> [] \<longrightarrow>
              minSymbolProportion opts \<le> rnd (real (countOf cls Symbol pw) / real (length pw)))
         \<and> (0 < countOf cls Lowercase pw + countOf cls Uppercase pw
              \<and> useUppercase opts \<and> useLowercase opts \<longrightarrow>
              2 * \<bar>rnd (rnd (real (countOf cls Lowercase pw)
                               / real (countOf cls Lowercase pw + countOf cls Uppercase pw)) - 1 / 2)\<bar>
                \<le> maxCaseVariance opts)))"
  using passwordIsValid_no_letters [where cls = cls and pw = pw and rnd = rnd and opts = opts and v = v]
    passwordIsValid_nonempty [where cls = cls and pw = pw and rnd = rnd and opts = opts]
  by blast

theorem passwordIsValid_denominators_witness:
  "countOf exampleClassifier Lowercase (str ''37'') + countOf exampleClassifier Uppercase (str ''37'') = 0
   \<and> passwordIsValid id exampleClassifier (str ''37'') (exampleOptions\<lparr> maxCaseVariance := - 1 \<rparr>)
   \<and> str ''37'' \<noteq> []
   \<and> passwordIsValid id exampleClassifier (str ''37'') exampleOptions"
  using passwordIsValid_denominators [where cls = exampleClassifier and pw = "str ''37''" and rnd = id
      and opts = exampleOptions and v = "- 1"]
  by (simp add: countOf_def str_def exampleClassifier_def exampleOptions_def)

text \<open>
  The empty password with the digit check enabled and a minimum of 0: the check divides
  0 by 0 and fails; without the check the empty password is valid.
\<close>

theorem passwordIsValid_empty_password_counterexample:
  "\<not> passwordIsValid id exampleClassifier [] (digitOptions\<lparr> minDigitProportion := 0 \<rparr>)
   \<and> js_div id (countOf exampleClassifier Digit []) (length ([] :: jsstring)) = NaN
   \<and> passwordIsValid id exampleClassifier [] (digitOptions\<lparr> useDigits := False \<rparr>)"
  by (simp add: passwordIsValid_iff countOf_def js_div_def digitOptions_def)

section \<open>The timeout\<close>











section \<open>Refills under interleaved invocations\<close>

lemma enter_in_flight:
  assumes "poolInv w" "regenerationPromise w = Some p"
  shows "getRandomByte_enter w = (Awaiting p, w)"
proof -
  have "buffer w = []" using assms by (simp add: poolInv_def)
  then show ?thesis using assms(2) by (simp add: getRandomByte_enter_eq regenerateRandomPool_def)
qed

lemma enterMany_in_flight:
  "poolInv w \<Longrightarrow> regenerationPromise w = Some p \<Longrightarrow> enterMany n w = (replicate n (Awaiting p), w)"
  by (induction n) (simp_all add: enter_in_flight)

lemma enter_exhausted:
  assumes "regenerationPromise w = None" "length (buffer w) \<le> numRead w"
  shows "fst (getRandomByte_enter w) = Awaiting (created w)"
    and "regenerationPromise (snd (getRandomByte_enter w)) = Some (created w)"
    and "outbox (snd (getRandomByte_enter w)) = outbox w @ [REQUEST_GET_RANDOM_BYTES (buffer w)]"
  using assms by (simp_all add: getRandomByte_enter_eq regenerateRandomPool_def)

lemma enterMany_exhausted:
  assumes "poolInv w" "regenerationPromise w = None" "length (buffer w) \<le> numRead w"
  shows "fst (enterMany (Suc n) w) = replicate (Suc n) (Awaiting (created w))
       \<and> outbox (snd (enterMany (Suc n) w)) = outbox w @ [REQUEST_GET_RANDOM_BYTES (buffer w)]"
proof -
  obtain c w1 where e: "getRandomByte_enter w = (c, w1)" by (cases "getRandomByte_enter w")
  have c: "c = Awaiting (created w)" and m: "regenerationPromise w1 = Some (created w)"
    and o: "outbox w1 = outbox w @ [REQUEST_GET_RANDOM_BYTES (buffer w)]"
    using enter_exhausted [OF assms(2,3)] e by simp_all
  have "poolInv w1" using poolInv_enter [OF assms(1)] e by simp
  then have "enterMany n w1 = (replicate n (Awaiting (created w)), w1)"
    using m by (rule enterMany_in_flight)
  then show ?thesis using e c o by simp
qed

lemma resume_retry:
  "length (buffer w) \<le> numRead w \<Longrightarrow>
   getRandomByte_resume Resolved w = getRandomByte_enter w \<and> (\<exists>p. fst (getRandomByte_enter w) = Awaiting p)"
  by (cases "regenerateRandomPool w") (simp add: getRandomByte_resume_def getRandomByte_enter_eq)

lemma reachable_poolInv: "reachable (w, cs) \<Longrightarrow> poolInv w"
  using reachable_inv [of "(w, cs)"] by simp

lemma reachable_awaiting:
  assumes "reachable (w, cs)" "Awaiting p \<in> set cs" "settled w p = None"
  shows "regenerationPromise w = Some p"
proof -
  have "poolInv w" "callersInv w cs" using reachable_inv [OF assms(1)] by simp_all
  then have "p < created w" "settled w p = None \<longleftrightarrow> (created w \<le> p \<or> regenerationPromise w = Some p)"
    using assms(2) by (simp_all add: callersInv_def poolInv_def)
  then show ?thesis using assms(3) by simp
qed

lemma deliver_in_flight:
  assumes "poolInv w" "regenerationPromise w = Some p" "deliver w = Some w'"
  shows "numRead w' = 0" "buffer w' = messageBuffer (hd (entropy w))" "regenerationPromise w' = None"
    "settled w' p = Some (if responseCode (hd (entropy w)) = OK then Resolved
                          else Rejected (messageText (hd (entropy w))))"
    "entropy w \<noteq> []"
  using deliver_cases [OF assms(1,3)] assms(2) by (simp_all add: onMessageListener_def)


text \<open>
  C8 (as amended). Initially \<open>numRead\<close> and the length of the buffer are both 65536.
  In every state that invocations of \<^verbatim>\<open>getRandomByte\<close> and responses of the main thread
  can reach, \<open>numRead \<le> buffer.length\<close> holds while no refill is in flight; while one is
  in flight the buffer, transferred to the main thread, has length 0. The promise
  \<open>regenerationPromise\<close> is set exactly while a refill request is outstanding, and it is
  that request's. The response that completes a refill sets \<open>numRead\<close> to 0, replaces
  the buffer and clears \<open>regenerationPromise\<close> in one step.
\<close>

theorem pool_invariant:
  "numRead (initialWorld rs clk) = 65536 \<and> length (buffer (initialWorld rs clk)) = 65536
   \<and> (reachable (w, cs) \<longrightarrow>
        (regenerationPromise w = None \<longrightarrow> numRead w \<le> length (buffer w))
      \<and> (regenerationPromise w \<noteq> None \<longrightarrow> buffer w = [])
      \<and> outstanding w = (case regenerationPromise w of None \<Rightarrow> [] | Some p \<Rightarrow> [p])
      \<and> (regenerationPromise w \<noteq> None \<and> deliver w = Some w' \<longrightarrow>
           numRead w' = 0 \<and> buffer w' = messageBuffer (hd (entropy w))
           \<and> regenerationPromise w' = None \<and> outstanding w' = []))"
proof (intro conjI impI)
  show "numRead (initialWorld rs clk) = 65536" "length (buffer (initialWorld rs clk)) = 65536"
    by (simp_all add: initialWorld_def)
next
  assume r: "reachable (w, cs)"
  then have inv: "poolInv w" by (rule reachable_poolInv)
  show "numRead w \<le> length (buffer w)" if "regenerationPromise w = None"
    using inv that by (simp add: poolInv_def)
  show "buffer w = []" if "regenerationPromise w \<noteq> None"
    using inv that by (auto simp: poolInv_def)
  show "outstanding w = (case regenerationPromise w of None \<Rightarrow> [] | Some p \<Rightarrow> [p])"
    using inv by (rule outstanding_inv)
  assume d: "regenerationPromise w \<noteq> None \<and> deliver w = Some w'"
  then obtain p where p: "regenerationPromise w = Some p" by auto
  note f = deliver_in_flight [OF inv p] 
  show "numRead w' = 0" "buffer w' = messageBuffer (hd (entropy w))" "regenerationPromise w' = None"
    using f d by simp_all
  have "poolInv w'" using poolInv_deliver [OF inv] d by simp
  then show "outstanding w' = []" using outstanding_inv [of w'] f(3) d by simp
qed

lemma reachable_in_flight:
  "reachable (snd (getRandomByte_enter (initialWorld rs clk)), [fst (getRandomByte_enter (initialWorld rs clk))])"
proof -
  have "step (initialWorld rs clk, []) (snd (getRandomByte_enter (initialWorld rs clk)),
          [] @ [fst (getRandomByte_enter (initialWorld rs clk))])"
    by (rule step.call) simp
  then show ?thesis using reachable.start reachable.after by fastforce
qed

lemma enter_initialWorld:
  "getRandomByte_enter (initialWorld rs clk) =
     (Awaiting 0, (initialWorld rs clk)\<lparr> regenerationPromise := Some 0, created := 1,
        listeners := [0], outbox := [REQUEST_GET_RANDOM_BYTES (replicate 65536 0)], buffer := [] \<rparr>)"
  by (simp add: getRandomByte_enter_eq regenerateRandomPool_def initialWorld_def)

theorem pool_invariant_witness:
  "reachable (snd (getRandomByte_enter (initialWorld [okResponse] exampleClock)), [Awaiting 0])
   \<and> regenerationPromise (snd (getRandomByte_enter (initialWorld [okResponse] exampleClock))) = Some 0
   \<and> buffer (snd (getRandomByte_enter (initialWorld [okResponse] exampleClock))) = []
   \<and> outstanding (snd (getRandomByte_enter (initialWorld [okResponse] exampleClock))) = [0]
   \<and> deliver (snd (getRandomByte_enter (initialWorld [okResponse] exampleClock)))
       = Some (refilled okResponse (initialWorld [okResponse] exampleClock))
   \<and> numRead (refilled okResponse (initialWorld [okResponse] exampleClock)) = 0
   \<and> buffer (refilled okResponse (initialWorld [okResponse] exampleClock)) = [250, 3, 7]
   \<and> outstanding (refilled okResponse (initialWorld [okResponse] exampleClock)) = []"
proof -
  define w0 where "w0 = initialWorld [okResponse] exampleClock"
  define w1 where "w1 = snd (getRandomByte_enter w0)"
  have r: "reachable (w1, [Awaiting 0])"
    using reachable_in_flight [of "[okResponse]" exampleClock]
    by (simp add: w1_def w0_def enter_initialWorld)
  have m: "regenerationPromise w1 = Some 0" by (simp add: w1_def w0_def enter_initialWorld)
  have w1: "w1 = w0\<lparr> regenerationPromise := Some 0, created := 1, listeners := [0],
        outbox := [REQUEST_GET_RANDOM_BYTES (replicate 65536 0)], buffer := [] \<rparr>"
    by (simp add: w1_def w0_def enter_initialWorld)
  have d: "deliver w1 = Some (refilled okResponse w0)"
    unfolding w1
    by (simp add: w0_def deliver_def onMessageListener_def refilled_def initialWorld_def okResponse_def)
  have e: "messageBuffer (hd (entropy w1)) = [250, 3, 7]"
    unfolding w1 by (simp add: w0_def initialWorld_def okResponse_def)
  show ?thesis
    using r m d e pool_invariant [of "[okResponse]" exampleClock w1 "[Awaiting 0]" "refilled okResponse w0"]
    by (simp add: w1_def w0_def)
qed

theorem pool_detached_counterexample:
  "reachable (snd (getRandomByte_enter (initialWorld [okResponse] exampleClock)), [Awaiting 0])
   \<and> numRead (snd (getRandomByte_enter (initialWorld [okResponse] exampleClock))) = 65536
   \<and> length (buffer (snd (getRandomByte_enter (initialWorld [okResponse] exampleClock)))) = 0
   \<and> \<not> numRead (snd (getRandomByte_enter (initialWorld [okResponse] exampleClock)))
         \<le> length (buffer (snd (getRandomByte_enter (initialWorld [okResponse] exampleClock))))"
  using reachable_in_flight [of "[okResponse]" exampleClock]
  by (simp add: enter_initialWorld) (simp add: initialWorld_def)

text \<open>
  C9. In every reachable state at most one refill request is outstanding, and every
  invocation that waits for a refill waits for the one in flight. Invocations that
  enter while a refill is in flight post no request and take its promise: \<open>n\<close> of them
  leave the state as it is. \<open>n + 1\<close> invocations that find the pool exhausted with no
  refill in flight post one request together. An invocation that is resumed after its
  refill reads a byte when one is left; when the buffer has been drained in between, it
  enters \<^verbatim>\<open>getRandomByte\<close> again and waits for a refill instead of failing.
\<close>

theorem single_refill_in_flight:
  "(reachable (w, cs) \<longrightarrow>
      length (outstanding w) \<le> 1
    \<and> (\<forall>p. Awaiting p \<in> set cs \<and> settled w p = None \<longrightarrow> regenerationPromise w = Some p)
    \<and> (\<forall>p. regenerationPromise w = Some p \<longrightarrow> enterMany n w = (replicate n (Awaiting p), w))
    \<and> (regenerationPromise w = None \<and> length (buffer w) \<le> numRead w \<longrightarrow>
         fst (enterMany (Suc n) w) = replicate (Suc n) (Awaiting (created w))
       \<and> outbox (snd (enterMany (Suc n) w)) = outbox w @ [REQUEST_GET_RANDOM_BYTES (buffer w)]))
   \<and> (numRead v < length (buffer v) \<longrightarrow> getRandomByte_resume Resolved v = readByte v)
   \<and> (length (buffer v) \<le> numRead v \<longrightarrow>
        getRandomByte_resume Resolved v = getRandomByte_enter v
      \<and> (\<exists>p. fst (getRandomByte_enter v) = Awaiting p))"
proof (intro conjI impI allI)
  assume r: "reachable (w, cs)"
  then have inv: "poolInv w" by (rule reachable_poolInv)
  show "length (outstanding w) \<le> 1"
    using outstanding_inv [OF inv] by (cases "regenerationPromise w") simp_all
  show "regenerationPromise w = Some p" if "Awaiting p \<in> set cs \<and> settled w p = None" for p
    using reachable_awaiting [OF r] that by simp
  show "enterMany n w = (replicate n (Awaiting p), w)" if "regenerationPromise w = Some p" for p
    using enterMany_in_flight [OF inv that] .
  assume e: "regenerationPromise w = None \<and> length (buffer w) \<le> numRead w"
  show "fst (enterMany (Suc n) w) = replicate (Suc n) (Awaiting (created w))"
    and "outbox (snd (enterMany (Suc n) w)) = outbox w @ [REQUEST_GET_RANDOM_BYTES (buffer w)]"
    using enterMany_exhausted [OF inv, of n] e by simp_all
next
  show "getRandomByte_resume Resolved v = readByte v" if "numRead v < length (buffer v)"
    using that by (simp add: getRandomByte_resume_def)
next
  assume "length (buffer v) \<le> numRead v"
  then show "getRandomByte_resume Resolved v = getRandomByte_enter v"
    and "\<exists>p. fst (getRandomByte_enter v) = Awaiting p"
    using resume_retry [of v] by simp_all
qed


theorem single_refill_in_flight_witness:
  "reachable (initialWorld [okResponse] exampleClock, [])
   \<and> regenerationPromise (initialWorld [okResponse] exampleClock) = None
   \<and> length (buffer (initialWorld [okResponse] exampleClock)) \<le> numRead (initialWorld [okResponse] exampleClock)
   \<and> fst (enterMany 3 (initialWorld [okResponse] exampleClock)) = [Awaiting 0, Awaiting 0, Awaiting 0]
   \<and> outbox (snd (enterMany 3 (initialWorld [okResponse] exampleClock)))
       = [REQUEST_GET_RANDOM_BYTES (replicate 65536 0)]
   \<and> reachable (snd (getRandomByte_enter (initialWorld [okResponse] exampleClock)), [Awaiting 0])
   \<and> regenerationPromise (snd (getRandomByte_enter (initialWorld [okResponse] exampleClock))) = Some 0
   \<and> enterMany 2 (snd (getRandomByte_enter (initialWorld [okResponse] exampleClock)))
       = ([Awaiting 0, Awaiting 0], snd (getRandomByte_enter (initialWorld [okResponse] exampleClock)))
   \<and> length (outstanding (snd (getRandomByte_enter (initialWorld [okResponse] exampleClock)))) \<le> 1
   \<and> length (buffer ((refilled okResponse (initialWorld [okResponse] exampleClock))\<lparr> numRead := 3 \<rparr>))
       \<le> numRead ((refilled okResponse (initialWorld [okResponse] exampleClock))\<lparr> numRead := 3 \<rparr>)
   \<and> fst (getRandomByte_resume Resolved
             ((refilled okResponse (initialWorld [okResponse] exampleClock))\<lparr> numRead := 3 \<rparr>))
       = Awaiting 1"
proof -
  define w0 where "w0 = initialWorld [okResponse] exampleClock"
  define w1 where "w1 = snd (getRandomByte_enter w0)"
  define wd where "wd = (refilled okResponse w0)\<lparr> numRead := 3 \<rparr>"
  have r0: "reachable (w0, [])" unfolding w0_def by (rule reachable.start)
  have r1: "reachable (w1, [Awaiting 0])"
    using reachable_in_flight [of "[okResponse]" exampleClock]
    by (simp add: w1_def w0_def enter_initialWorld)
  have m1: "regenerationPromise w1 = Some 0" by (simp add: w1_def w0_def enter_initialWorld)
  have i0: "regenerationPromise w0 = None" "length (buffer w0) \<le> numRead w0"
    "created w0 = 0" "outbox w0 = []" "buffer w0 = replicate 65536 0"
    by (simp_all add: w0_def initialWorld_def)
  have d: "length (buffer wd) \<le> numRead wd" by (simp add: wd_def refilled_def okResponse_def)
  have e: "fst (getRandomByte_enter wd) = Awaiting 1"
    by (simp add: wd_def w0_def getRandomByte_enter_eq regenerateRandomPool_def refilled_def
        okResponse_def initialWorld_def)
  note T0 = single_refill_in_flight [where w = w0 and cs = "[]" and n = 2 and v = wd]
  note T1 = single_refill_in_flight [where w = w1 and cs = "[Awaiting 0]" and n = 2 and v = wd]
  have a: "fst (enterMany 3 w0) = [Awaiting 0, Awaiting 0, Awaiting 0]"
    "outbox (snd (enterMany 3 w0)) = [REQUEST_GET_RANDOM_BYTES (replicate 65536 0)]"
    using T0 r0 i0 by (simp_all add: numeral_3_eq_3)
  have b: "enterMany 2 w1 = ([Awaiting 0, Awaiting 0], w1)" "length (outstanding w1) \<le> 1"
    using T1 r1 m1 by (simp_all add: numeral_2_eq_2)
  have c: "fst (getRandomByte_resume Resolved wd) = Awaiting 1"
    using T0 d e by simp
  show ?thesis
    using r0 r1 m1 i0(1,2) a b c d by (simp add: w0_def w1_def wd_def)
qed

section \<open>Failures of the entropy source\<close>







end
